theory Spec2Isabelle
  imports Main "HOL-Library.Word" "HOL-Library.Sublist"
begin

section \<open>JavaScript strings\<close>

text \<open>
  A JavaScript string is a sequence of 16-bit code units, and \<open>length\<close> counts code
  units. The box-drawing characters of the table borders are one code unit each.
\<close>

type_synonym jsstring = "16 word list"

definition lit :: "string \<Rightarrow> jsstring" where
  "lit s = map of_char s"

abbreviation NL :: "16 word" where "NL \<equiv> 0x0A"
abbreviation ESC :: "16 word" where "ESC \<equiv> 0x1B"
abbreviation SP :: "16 word" where "SP \<equiv> 0x20"

text \<open>The escape sequences and box characters that the printer writes.\<close>

definition sgr :: "string \<Rightarrow> jsstring" where
  "sgr code = [ESC, 0x5B] @ lit code @ [0x6D]"

abbreviation RESET :: jsstring where "RESET \<equiv> sgr ''0''"
abbreviation BOLD :: jsstring where "BOLD \<equiv> sgr ''1''"
abbreviation YELLOW :: jsstring where "YELLOW \<equiv> sgr ''93''"
abbreviation CYAN :: jsstring where "CYAN \<equiv> sgr ''36''"
abbreviation GREEN :: jsstring where "GREEN \<equiv> sgr ''32''"
abbreviation RED :: jsstring where "RED \<equiv> sgr ''31''"
abbreviation GRAY :: jsstring where "GRAY \<equiv> sgr ''90''"

abbreviation BOX_H :: "16 word" where "BOX_H \<equiv> 0x2500"
abbreviation BOX_V :: "16 word" where "BOX_V \<equiv> 0x2502"
abbreviation BOX_TL :: "16 word" where "BOX_TL \<equiv> 0x250C"
abbreviation BOX_TR :: "16 word" where "BOX_TR \<equiv> 0x2510"
abbreviation BOX_TEE_L :: "16 word" where "BOX_TEE_L \<equiv> 0x251C"
abbreviation BOX_TEE_R :: "16 word" where "BOX_TEE_R \<equiv> 0x2524"
abbreviation BOX_TEE_T :: "16 word" where "BOX_TEE_T \<equiv> 0x252C"
abbreviation BOX_BL :: "16 word" where "BOX_BL \<equiv> 0x2514"
abbreviation BOX_BR :: "16 word" where "BOX_BR \<equiv> 0x2518"
abbreviation BOX_TEE_B :: "16 word" where "BOX_TEE_B \<equiv> 0x2534"

text \<open>\<open>str.indexOf(c)\<close>: the index of the first occurrence, or \<open>-1\<close>.\<close>

definition indexOf :: "jsstring \<Rightarrow> 16 word \<Rightarrow> int" where
  "indexOf s c = (if c \<in> set s then int (length (takeWhile (\<lambda>x. x \<noteq> c) s)) else - 1)"

text \<open>
  \<open>str.slice(0, e)\<close>: a negative end counts from the end of the string and is clamped
  at 0; an end beyond the string is clamped at its length.
\<close>

definition slice :: "jsstring \<Rightarrow> int \<Rightarrow> jsstring" where
  "slice s e =
     (let len = int (length s);
          to = (if e < 0 then max (len + e) 0 else min e len)
      in take (nat to) s)"

definition endsWith :: "jsstring \<Rightarrow> 16 word \<Rightarrow> bool" where
  "endsWith s c = (s \<noteq> [] \<and> last s = c)"

definition padEnd :: "jsstring \<Rightarrow> nat \<Rightarrow> jsstring" where
  "padEnd s w = s @ replicate (w - length s) SP"

fun join :: "jsstring \<Rightarrow> jsstring list \<Rightarrow> jsstring" where
  "join sep [] = []"
| "join sep [x] = x"
| "join sep (x # y # ys) = x @ sep @ join sep (y # ys)"

text \<open>\<open>n.toString()\<close> of an integer: its decimal digits.\<close>

fun digits :: "nat \<Rightarrow> jsstring" where
  "digits n = (if n < 10 then [0x30 + of_nat n] else digits (n div 10) @ [0x30 + of_nat (n mod 10)])"

declare digits.simps [simp del]

definition int_toString :: "int \<Rightarrow> jsstring" where
  "int_toString i = (if i < 0 then 0x2D # digits (nat (- i)) else digits (nat i))"

section \<open>Configuration\<close>

text \<open>
  The two static fields of the class. \<open>max_prim_length\<close> is \<open>None\<close> when the field
  holds no number (\<open>undefined\<close>, \<open>NaN\<close>); it starts as \<open>-1\<close>.
\<close>

record config =
  max_prim_length :: "int option"
  discourage_multiline :: bool

definition default_config :: config where
  "default_config = \<lparr> max_prim_length = Some (- 1), discourage_multiline = False \<rparr>"

section \<open>Truncation\<close>

text \<open>The test \<open>!maxLen || isNaN(maxLen) || maxLen < 0\<close>.\<close>

definition no_limit :: "int option \<Rightarrow> bool" where
  "no_limit maxLen = (case maxLen of None \<Rightarrow> True | Some m \<Rightarrow> m = 0 \<or> m < 0)"

text \<open>
  The value of \<open>maxLen\<close> after the two adjustments at the head of \<open>#truncate\<close>: the
  length of the string when there is no limit, lowered to the index of the first line
  break when that is smaller.
\<close>

definition effective_max :: "jsstring \<Rightarrow> int option \<Rightarrow> int" where
  "effective_max s maxLen =
     (let new_line_idx = indexOf s NL;
          maxLen1 = (case maxLen of None \<Rightarrow> int (length s)
                     | Some m \<Rightarrow> if no_limit maxLen then int (length s) else m)
      in if new_line_idx \<noteq> - 1 \<and> new_line_idx < maxLen1 then new_line_idx else maxLen1)"

definition truncate :: "bool \<Rightarrow> jsstring \<Rightarrow> int option \<Rightarrow> jsstring" where
  "truncate discourage s maxLen0 =
     (let maxLen = effective_max s maxLen0;
          more = int (length s) - maxLen
      in if int (length s) \<le> maxLen then s
         else if maxLen > 24 \<and> discourage then
           (if endsWith (slice s (maxLen + 1)) NL
            then slice s (maxLen - 21) @ [SP] @ RESET @ lit ''(multi-line '' @ int_toString more @ lit '' more...)''
            else slice s (maxLen - 12 - int (length (int_toString more)))
                 @ lit ''... '' @ RESET @ lit ''('' @ int_toString more @ lit '' more)'')
         else slice s (maxLen - 3) @ lit ''...'')"

section \<open>Stripping escape sequences\<close>

text \<open>
  The regular expression \<open>ESC \[ [0-9;]* m\<close>. \<open>match_sgr s\<close> is what follows the match
  when \<open>s\<close> starts with one. The letter \<open>m\<close> is no parameter character, so the greedy
  star never has to give characters back.
\<close>

definition is_param :: "16 word \<Rightarrow> bool" where
  "is_param c = (c \<in> set (lit ''0123456789;''))"

definition match_sgr :: "jsstring \<Rightarrow> jsstring option" where
  "match_sgr s =
     (case s of
        e # b # rest \<Rightarrow>
          if e = ESC \<and> b = 0x5B then
            (case dropWhile is_param rest of
               m # rest' \<Rightarrow> if m = 0x6D then Some rest' else None
             | [] \<Rightarrow> None)
          else None
      | _ \<Rightarrow> None)"

lemma match_sgr_shorter: "match_sgr s = Some r \<Longrightarrow> length r < length s"
proof -
  assume a: "match_sgr s = Some r"
  then obtain e b rest where s: "s = e # b # rest"
    by (auto simp: match_sgr_def split: list.splits)
  from a s obtain m where d: "dropWhile is_param rest = m # r"
    by (auto simp: match_sgr_def split: list.splits if_splits)
  have "length (dropWhile is_param rest) \<le> length rest"
    by (rule length_dropWhile_le)
  with d s show ?thesis by simp
qed

text \<open>
  \<open>str.replace(/ESC\[[0-9;]*m/g, '')\<close>: one pass from the left; a match is dropped and
  the scan goes on behind it, any other code unit is kept.
\<close>

function stripColors :: "jsstring \<Rightarrow> jsstring" where
  "stripColors [] = []"
| "stripColors (c # cs) =
     (case match_sgr (c # cs) of
        Some rest \<Rightarrow> stripColors rest
      | None \<Rightarrow> c # stripColors cs)"
  by pat_completeness auto
termination
  by (relation "measure length") (auto dest: match_sgr_shorter)

text \<open>
  \<open>display.match(/^ESC\[[\d;]+m/)?.[0] || ''\<close>: the escape sequence at the head of the
  string, with at least one parameter character, or the empty string.
\<close>

definition leading_color :: "jsstring \<Rightarrow> jsstring" where
  "leading_color s =
     (case s of
        e # b # rest \<Rightarrow>
          if e = ESC \<and> b = 0x5B \<and> takeWhile is_param rest \<noteq> [] then
            (case dropWhile is_param rest of
               m # _ \<Rightarrow> if m = 0x6D then [e, b] @ takeWhile is_param rest @ [m] else []
             | [] \<Rightarrow> [])
          else []
      | _ \<Rightarrow> [])"

section \<open>Exceptions and engine limits\<close>

text \<open>
  The exceptions the printer can raise. A result is the exception (\<open>Inl\<close>) or the value
  returned (\<open>Inr\<close>). \<open>collect\<close> is what \<open>map\<close> or a loop with \<open>push\<close> yields when
  a step can throw: the results in order, or the first exception.
\<close>

datatype error = TypeError | RangeError

definition and_then :: "error + 'a \<Rightarrow> ('a \<Rightarrow> error + 'b) \<Rightarrow> error + 'b" where
  "and_then r f = (case r of Inl e \<Rightarrow> Inl e | Inr x \<Rightarrow> f x)"

fun collect :: "(error + 'a) list \<Rightarrow> error + 'a list" where
  "collect [] = Inr []"
| "collect (r # rs) =
     (case r of
        Inl e \<Rightarrow> Inl e
      | Inr x \<Rightarrow> (case collect rs of Inl e \<Rightarrow> Inl e | Inr xs \<Rightarrow> Inr (x # xs)))"

text \<open>
  The engine limits the number of arguments of a call: spreading a longer array into
  a call raises \<open>RangeError\<close>. The language does not fix the limit. The depth of the
  call stack is limited as well; it is the budget of \<open>print_d\<close> below.
\<close>

datatype engine = Engine (max_arguments: nat)

definition sample_engine :: engine where
  "sample_engine = Engine 65535"

text \<open>\<open>c.repeat(n)\<close>; a negative count raises \<open>RangeError\<close>.\<close>

definition js_repeat :: "16 word \<Rightarrow> int \<Rightarrow> error + jsstring" where
  "js_repeat c n = (if n < 0 then Inl RangeError else Inr (replicate (nat n) c))"

section \<open>Values\<close>

text \<open>
  The values the printer is given. A number is represented by the text that
  \<open>Number.prototype.toString\<close> returns for it: the printer reads a number in no other
  way. A record lists its own properties in the order of \<open>Object.keys\<close>; in a
  JavaScript object the keys are distinct (\<open>wf_record\<close>). \<open>JUndefined\<close> is what
  \<open>row[key]\<close> yields for a key the row does not have.
\<close>

datatype jsval =
    JNull
  | JStr jsstring
  | JNum jsstring
  | JBool bool
  | JArr "jsval list"
  | JObj "(jsstring \<times> jsval) list"
  | JUndefined

datatype vtype = Primitive | Array | Object | Unknown

fun getType :: "jsval \<Rightarrow> vtype" where
  "getType JNull = Primitive"
| "getType (JStr _) = Primitive"
| "getType (JNum _) = Primitive"
| "getType (JBool _) = Primitive"
| "getType (JArr _) = Array"
| "getType (JObj _) = Object"
| "getType JUndefined = Unknown"

text \<open>\<open>Object.keys\<close>; every call in the source is on a value of type \<open>Object\<close>.\<close>

fun object_keys :: "jsval \<Rightarrow> jsstring list" where
  "object_keys (JObj kvs) = map fst kvs"
| "object_keys _ = []"

definition wf_record :: "jsval \<Rightarrow> bool" where
  "wf_record v = distinct (object_keys v)"

text \<open>
  \<open>row[key]\<close>. \<open>#printTable\<close> reads the keys of the first row only, and every row
  of a table has them as its own properties.
\<close>

fun get_prop :: "jsval \<Rightarrow> jsstring \<Rightarrow> jsval" where
  "get_prop (JObj kvs) key = (case map_of kvs key of Some v \<Rightarrow> v | None \<Rightarrow> JUndefined)"
| "get_prop _ key = JUndefined"

text \<open>
  \<open>String(value)\<close>. An array is joined with commas, \<open>null\<close> and \<open>undefined\<close> elements
  giving the empty string and every other element its own \<open>String\<close>. A record is
  converted by its \<open>toString\<close> method: the inherited one gives \<open>[object Object]\<close>; an
  own property \<open>toString\<close> hides it and is not callable (no value here is), \<open>valueOf\<close>
  gives no primitive either (inherited, it returns the record itself; as an own
  property it is not callable), and the conversion raises \<open>TypeError\<close>.
\<close>

fun js_String :: "jsval \<Rightarrow> error + jsstring" where
  "js_String JNull = Inr (lit ''null'')"
| "js_String JUndefined = Inr (lit ''undefined'')"
| "js_String (JStr s) = Inr s"
| "js_String (JNum t) = Inr t"
| "js_String (JBool b) = Inr (if b then lit ''true'' else lit ''false'')"
| "js_String (JArr xs) =
     map_sum id (join (lit '',''))
       (collect (map (\<lambda>x. if x = JNull \<or> x = JUndefined then Inr [] else js_String x) xs))"
| "js_String (JObj kvs) =
     (if lit ''toString'' \<in> set (map fst kvs) then Inl TypeError
      else Inr (lit ''[object Object]''))"

section \<open>Formatting a primitive\<close>

fun formatPrimitive :: "config \<Rightarrow> jsval \<Rightarrow> error + jsstring" where
  "formatPrimitive cfg (JStr s) =
     Inr (YELLOW @ truncate (discourage_multiline cfg) s (max_prim_length cfg) @ RESET)"
| "formatPrimitive cfg (JNum t) =
     Inr (CYAN @ truncate (discourage_multiline cfg) t (max_prim_length cfg) @ RESET)"
| "formatPrimitive cfg (JBool b) =
     Inr (if b then GREEN @ lit ''true'' @ RESET else RED @ lit ''false'' @ RESET)"
| "formatPrimitive cfg JNull = Inr (GRAY @ lit ''null'' @ RESET)"
| "formatPrimitive cfg v = js_String v"

section \<open>The table\<close>

text \<open>
  The test of \<open>#printArray\<close> that selects the table: all elements are objects, and
  every element has as many keys as the first one, all among the first one's keys, and
  the first one has a key.
\<close>

definition table_mode :: "jsval list \<Rightarrow> bool" where
  "table_mode arr =
     (let allObjects = list_all (\<lambda>item. getType item = Object) arr
      in case arr of
           [] \<Rightarrow> False
         | first # _ \<Rightarrow>
             if allObjects then
               (let firstKeys = object_keys first;
                    allSameShape = list_all (\<lambda>item.
                      let keys = object_keys item
                      in length keys = length firstKeys \<and> list_all (\<lambda>k. k \<in> set firstKeys) keys) arr
                in allSameShape \<and> length firstKeys > 0)
             else False)"

text \<open>
  The width of one column as the loop over the keys computes it:
  \<open>Math.min(Math.max(headerLen, ...valuesLens), 50)\<close>, where \<open>valuesLens\<close> are the
  lengths of the formatted, colour-stripped cells of the column. Formatting a cell can
  raise \<open>TypeError\<close>; the spread passes one argument for each row besides
  \<open>headerLen\<close>.
\<close>

definition valuesLens :: "config \<Rightarrow> jsval list \<Rightarrow> jsstring \<Rightarrow> error + nat list" where
  "valuesLens cfg arr key =
     collect (map (\<lambda>row. map_sum id (\<lambda>str. length (stripColors str))
                          (formatPrimitive cfg (get_prop row key))) arr)"

definition math_max :: "engine \<Rightarrow> nat \<Rightarrow> nat list \<Rightarrow> error + nat" where
  "math_max eng headerLen lens =
     (if max_arguments eng < 1 + length lens then Inl RangeError
      else Inr (fold max lens headerLen))"

definition column_width :: "engine \<Rightarrow> config \<Rightarrow> jsval list \<Rightarrow> jsstring \<Rightarrow> error + nat" where
  "column_width eng cfg arr key =
     and_then (valuesLens cfg arr key)
       (\<lambda>lens. map_sum id (\<lambda>m. min m 50) (math_max eng (length key) lens))"

text \<open>
  \<open>widths\<close> is a plain object. The assignment \<open>widths[key] = n\<close> stores the number
  under every key but \<open>__proto__\<close>: that assignment goes to the setter inherited from
  \<open>Object.prototype\<close>, which ignores a number, and every later read of
  \<open>widths['__proto__']\<close> yields the prototype object. \<open>widths_read key n\<close> is what
  the reads of \<open>widths[key]\<close> yield after \<open>n\<close> was assigned; \<open>widths\<close> lists the
  keys, in order, each with what is read for it.
\<close>

datatype width_value = Number nat | ObjectPrototype

definition widths_read :: "jsstring \<Rightarrow> nat \<Rightarrow> width_value" where
  "widths_read key n = (if key = lit ''__proto__'' then ObjectPrototype else Number n)"

definition widths ::
  "engine \<Rightarrow> config \<Rightarrow> jsval list \<Rightarrow> jsstring list \<Rightarrow> error + (jsstring \<times> width_value) list" where
  "widths eng cfg arr keys =
     collect (map (\<lambda>key. map_sum id (\<lambda>n. (key, widths_read key n))
                          (column_width eng cfg arr key)) keys)"

text \<open>
  What the uses of \<open>widths[key]\<close> make of the value read. The prototype object
  converts to the text \<open>[object Object]\<close>, hence to no number: as the length of
  \<open>padEnd\<close> it counts as 0, \<open>widths[key] + 2\<close> is a text and as the count of
  \<open>repeat\<close> it is 0, and as \<open>maxLen\<close> of \<open>#truncate\<close> it is no number
  (\<open>isNaN\<close>).
\<close>

definition pad_length :: "width_value \<Rightarrow> nat" where
  "pad_length w = (case w of Number n \<Rightarrow> n | ObjectPrototype \<Rightarrow> 0)"

definition rule_length :: "width_value \<Rightarrow> nat" where
  "rule_length w = (case w of Number n \<Rightarrow> n + 2 | ObjectPrototype \<Rightarrow> 0)"

definition max_length :: "width_value \<Rightarrow> int option" where
  "max_length w = (case w of Number n \<Rightarrow> Some (int n) | ObjectPrototype \<Rightarrow> None)"

text \<open>
  \<open>keys.reduce((sum, k) => sum + widths[k] + 3, -3) + 2\<close>. Once the prototype
  object has been added the sum is a text and stays one; \<open>None\<close> stands for it.
\<close>

definition add_width :: "jsstring \<times> width_value \<Rightarrow> int option \<Rightarrow> int option" where
  "add_width col acc =
     (case acc of
        None \<Rightarrow> None
      | Some s \<Rightarrow> (case snd col of
            Number n \<Rightarrow> Some (s + int n + 3)
          | ObjectPrototype \<Rightarrow> None))"

definition totalWidth :: "(jsstring \<times> width_value) list \<Rightarrow> int option" where
  "totalWidth cols = map_option (\<lambda>s. s + 2) (fold add_width cols (Some (- 3)))"

text \<open>
  The value of \<open>display\<close> for one cell, before the blanks around it are added:
  format, take the colour code, strip, truncate to the width, strip again, pad and wrap.
\<close>

definition cell_display :: "config \<Rightarrow> jsval \<Rightarrow> width_value \<Rightarrow> error + jsstring" where
  "cell_display cfg rawVal w =
     map_sum id (\<lambda>display.
       let colorCode = leading_color display;
           plain = stripColors display;
           display1 = truncate (discourage_multiline cfg) plain (max_length w);
           display2 = stripColors display1
       in colorCode @ padEnd display2 (pad_length w) @ RESET)
     (formatPrimitive cfg rawVal)"

text \<open>
  \<open>#printTable\<close>. \<open>Object.keys(arr[0])\<close> raises \<open>TypeError\<close> on an empty array.
  As the count of \<open>repeat\<close> for the top border, a \<open>totalWidth\<close> that is a text
  counts as 0.
\<close>

definition printTable :: "engine \<Rightarrow> config \<Rightarrow> jsval list \<Rightarrow> nat \<Rightarrow> error + jsstring" where
  "printTable eng cfg arr indent =
     (case arr of
        [] \<Rightarrow> Inl TypeError
      | first # _ \<Rightarrow>
          (let keys = object_keys first;
               indentStr = replicate (indent * 2) SP
           in and_then (widths eng cfg arr keys) (\<lambda>cols.
              and_then (case totalWidth cols of
                          None \<Rightarrow> Inr []
                        | Some t \<Rightarrow> js_repeat BOX_H t) (\<lambda>rule.
              and_then (collect (map (\<lambda>row.
                          map_sum id (\<lambda>cells. indentStr @ [BOX_V] @ join [BOX_V] cells @ [BOX_V])
                            (collect (map (\<lambda>col.
                               map_sum id (\<lambda>display. [SP] @ display @ [SP])
                                 (cell_display cfg (get_prop row (fst col)) (snd col))) cols)))
                        arr)) (\<lambda>rows.
                let top = indentStr @ [BOX_TL] @ rule @ [BOX_TR];
                    headerCells = join [BOX_V]
                      (map (\<lambda>col. [SP] @ BOLD @ padEnd (fst col) (pad_length (snd col)) @ RESET @ [SP]) cols);
                    header = indentStr @ [BOX_V] @ headerCells @ [BOX_V];
                    sep = join [BOX_TEE_T] (map (\<lambda>col. replicate (rule_length (snd col)) BOX_H) cols);
                    bottom = join [BOX_TEE_B] (map (\<lambda>col. replicate (rule_length (snd col)) BOX_H) cols);
                    lines = [top, header, indentStr @ [BOX_TEE_L] @ sep @ [BOX_TEE_R]] @ rows
                            @ [indentStr @ [BOX_BL] @ bottom @ [BOX_BR]]
                in Inr ([NL] @ join [NL] lines))))))"

section \<open>The recursive printer\<close>

text \<open>
  The two lines that \<open>#printObject\<close> writes for a key. The loop over
  \<open>Object.keys(obj)\<close> reads \<open>obj[key]\<close> for each key in turn, which is the value
  listed with the key.
\<close>

definition key_value_line :: "nat \<Rightarrow> jsstring \<Rightarrow> jsstring \<Rightarrow> jsstring" where
  "key_value_line indent key formatted =
     [SP, SP] @ replicate (indent * 2) SP @ BOLD @ key @ RESET @ lit '': '' @ formatted"

definition key_line :: "nat \<Rightarrow> jsstring \<Rightarrow> jsstring" where
  "key_line indent key = [SP, SP] @ replicate (indent * 2) SP @ BOLD @ key @ RESET @ lit '':''"

lemma size_list_member: "x \<in> set xs \<Longrightarrow> size x \<le> size_list size xs"
  by (induction xs) auto

lemma size_list_snd_member:
  "(k, v) \<in> set kvs \<Longrightarrow> size v \<le> size_list (size_prod (\<lambda>_. 0) size) kvs"
  by (induction kvs) auto

function print :: "engine \<Rightarrow> config \<Rightarrow> jsval \<Rightarrow> nat \<Rightarrow> error + jsstring"
  and printArray :: "engine \<Rightarrow> config \<Rightarrow> jsval list \<Rightarrow> nat \<Rightarrow> error + jsstring"
  and printObject :: "engine \<Rightarrow> config \<Rightarrow> (jsstring \<times> jsval) list \<Rightarrow> nat \<Rightarrow> error + jsstring"
where
  "print eng cfg obj indent =
     (case obj of
        JArr arr \<Rightarrow> printArray eng cfg arr indent
      | JObj kvs \<Rightarrow> printObject eng cfg kvs indent
      | _ \<Rightarrow> if getType obj = Primitive
             then map_sum id (\<lambda>text. replicate (indent * 2) SP @ text) (formatPrimitive cfg obj)
             else map_sum id (\<lambda>text. replicate (indent * 2) SP @ text) (js_String obj))"
| "printArray eng cfg arr indent =
     (if length arr = 0 then Inr (replicate (indent * 2) SP @ lit ''[]'')
      else if table_mode arr then printTable eng cfg arr indent
      else map_sum id (join [NL]) (collect (map (\<lambda>item. print eng cfg item (indent + 1)) arr)))"
| "printObject eng cfg kvs indent =
     (if length kvs = 0 then Inr (replicate (indent * 2) SP @ lit ''{}'')
      else map_sum id (\<lambda>ls. join [NL] (concat ls)) (collect (map (\<lambda>kv.
             if getType (snd kv) = Primitive
             then map_sum id (\<lambda>text. [key_value_line indent (fst kv) text])
                    (formatPrimitive cfg (snd kv))
             else map_sum id (\<lambda>block. [key_line indent (fst kv), block])
                    (print eng cfg (snd kv) (indent + 1))) kvs)))"
  by pat_completeness auto
termination
  by (relation "measure (\<lambda>x. case x of
        Inl (_, _, v, _) \<Rightarrow> 2 * size v + 1
      | Inr (Inl (_, _, arr, _)) \<Rightarrow> 2 * size_list size arr + 2
      | Inr (Inr (_, _, kvs, _)) \<Rightarrow> 2 * size_list (size_prod (\<lambda>_. 0) size) kvs + 2)")
     (auto simp: less_Suc_eq_le size_list_member size_list_snd_member)

declare print.simps [simp del] printArray.simps [simp del] printObject.simps [simp del]

section \<open>The recursion depth of the printer\<close>

text \<open>
  The printer with a budget for the depth of nested calls of \<open>print\<close>, which is what
  the call stack of the engine admits: every call of \<open>print\<close> takes one unit, and a
  call with no budget left raises \<open>RangeError\<close>. The bodies are those of \<open>print\<close>,
  \<open>printArray\<close> and \<open>printObject\<close>.
\<close>

fun print_d :: "nat \<Rightarrow> engine \<Rightarrow> config \<Rightarrow> jsval \<Rightarrow> nat \<Rightarrow> error + jsstring"
  and printArray_d :: "nat \<Rightarrow> engine \<Rightarrow> config \<Rightarrow> jsval list \<Rightarrow> nat \<Rightarrow> error + jsstring"
  and printObject_d :: "nat \<Rightarrow> engine \<Rightarrow> config \<Rightarrow> (jsstring \<times> jsval) list \<Rightarrow> nat \<Rightarrow> error + jsstring"
where
  "print_d 0 eng cfg obj indent = Inl RangeError"
| "print_d (Suc d) eng cfg obj indent =
     (case obj of
        JArr arr \<Rightarrow> printArray_d d eng cfg arr indent
      | JObj kvs \<Rightarrow> printObject_d d eng cfg kvs indent
      | _ \<Rightarrow> if getType obj = Primitive
             then map_sum id (\<lambda>text. replicate (indent * 2) SP @ text) (formatPrimitive cfg obj)
             else map_sum id (\<lambda>text. replicate (indent * 2) SP @ text) (js_String obj))"
| "printArray_d d eng cfg arr indent =
     (if length arr = 0 then Inr (replicate (indent * 2) SP @ lit ''[]'')
      else if table_mode arr then printTable eng cfg arr indent
      else map_sum id (join [NL]) (collect (map (\<lambda>item. print_d d eng cfg item (indent + 1)) arr)))"
| "printObject_d d eng cfg kvs indent =
     (if length kvs = 0 then Inr (replicate (indent * 2) SP @ lit ''{}'')
      else map_sum id (\<lambda>ls. join [NL] (concat ls)) (collect (map (\<lambda>kv.
             if getType (snd kv) = Primitive
             then map_sum id (\<lambda>text. [key_value_line indent (fst kv) text])
                    (formatPrimitive cfg (snd kv))
             else map_sum id (\<lambda>block. [key_line indent (fst kv), block])
                    (print_d d eng cfg (snd kv) (indent + 1))) kvs)))"

text \<open>The nesting depth of a value: 0 for a scalar, one more than its deepest member otherwise.\<close>

fun nesting :: "jsval \<Rightarrow> nat" where
  "nesting (JArr xs) = Suc (fold max (map nesting xs) 0)"
| "nesting (JObj kvs) = Suc (fold max (map (\<lambda>kv. nesting (snd kv)) kvs) 0)"
| "nesting _ = 0"

text \<open>
  Values on which no conversion throws and no spread exceeds the limit of the engine:
  no record has an own key \<open>toString\<close>, and every sequence has fewer members than the
  engine admits arguments.
\<close>

fun renderable :: "engine \<Rightarrow> jsval \<Rightarrow> bool" where
  "renderable eng (JArr xs) = (length xs < max_arguments eng \<and> list_all (renderable eng) xs)"
| "renderable eng (JObj kvs) =
     (lit ''toString'' \<notin> set (map fst kvs) \<and> list_all (\<lambda>kv. renderable eng (snd kv)) kvs)"
| "renderable eng _ = True"

section \<open>Notions of the specification\<close>

text \<open>
  The shape of a record is the set of its keys. The condition for the table in the
  words of the specification: the sequence is not empty, every element is a record, and
  all records share one shape, which has a key.
\<close>

definition shape :: "jsval \<Rightarrow> jsstring set" where
  "shape v = set (object_keys v)"

definition spec_table_condition :: "jsval list \<Rightarrow> bool" where
  "spec_table_condition arr =
     (arr \<noteq> []
      \<and> list_all (\<lambda>v. getType v = Object) arr
      \<and> list_all (\<lambda>v. list_all (\<lambda>u. shape u = shape v) arr) arr
      \<and> list_all (\<lambda>v. shape v \<noteq> {}) arr)"

text \<open>The number of blanks a text starts with.\<close>

definition leading_spaces :: "jsstring \<Rightarrow> nat" where
  "leading_spaces s = length (takeWhile (\<lambda>c. c = SP) s)"

section \<open>Properties of the primitive formatter\<close>

text \<open>
  Claim C10. Booleans and \<open>null\<close> are formatted as the fixed spans \<open>true\<close>, \<open>false\<close>
  and \<open>null\<close> whatever the configuration is, also with a maximum below 4: their plain
  text is never cut, and no exception is raised. Strings and numbers are the scalars
  that go through \<open>truncate\<close>: with a maximum of 3 the string \<open>true\<close> is cut to the
  ellipsis while the boolean is not.
\<close>

theorem formatPrimitive_bool_null_fixed:
  "formatPrimitive cfg (JBool True) = Inr (GREEN @ lit ''true'' @ RESET)
   \<and> formatPrimitive cfg (JBool False) = Inr (RED @ lit ''false'' @ RESET)
   \<and> formatPrimitive cfg JNull = Inr (GRAY @ lit ''null'' @ RESET)
   \<and> map_sum id stripColors (formatPrimitive cfg (JBool True)) = Inr (lit ''true'')
   \<and> map_sum id stripColors (formatPrimitive cfg (JBool False)) = Inr (lit ''false'')
   \<and> map_sum id stripColors (formatPrimitive cfg JNull) = Inr (lit ''null'')
   \<and> formatPrimitive cfg (JStr s)
       = Inr (YELLOW @ truncate (discourage_multiline cfg) s (max_prim_length cfg) @ RESET)
   \<and> formatPrimitive cfg (JNum t)
       = Inr (CYAN @ truncate (discourage_multiline cfg) t (max_prim_length cfg) @ RESET)
   \<and> map_sum id stripColors (formatPrimitive (cfg\<lparr>max_prim_length := Some 3\<rparr>) (JBool True))
       = Inr (lit ''true'')
   \<and> map_sum id stripColors
         (formatPrimitive \<lparr>max_prim_length = Some 3, discourage_multiline = d\<rparr> (JStr (lit ''true'')))
       = Inr (lit ''...'')"
proof -
  have 1: "stripColors (GREEN @ lit ''true'' @ RESET) = lit ''true''"
    by (simp add: lit_def sgr_def match_sgr_def is_param_def)
  have 2: "stripColors (RED @ lit ''false'' @ RESET) = lit ''false''"
    by (simp add: lit_def sgr_def match_sgr_def is_param_def)
  have 3: "stripColors (GRAY @ lit ''null'' @ RESET) = lit ''null''"
    by (simp add: lit_def sgr_def match_sgr_def is_param_def)
  have 4: "truncate d (lit ''true'') (Some 3) = lit ''...''"
    by (simp add: truncate_def effective_max_def indexOf_def no_limit_def slice_def lit_def)
  have 5: "stripColors (YELLOW @ lit ''...'' @ RESET) = lit ''...''"
    by (simp add: lit_def sgr_def match_sgr_def is_param_def)
  show ?thesis
    using 1 2 3 4 5 by simp
qed

section \<open>Column widths\<close>

lemmas eval_truncate = truncate_def effective_max_def indexOf_def no_limit_def slice_def lit_def
lemmas eval_strip = sgr_def lit_def match_sgr_def is_param_def

lemma fold_max_ge: "(a::nat) \<le> fold max xs a"
proof (induction xs arbitrary: a)
  case Nil
  show ?case by simp
next
  case (Cons x xs)
  have "a \<le> max x a" by simp
  also have "\<dots> \<le> fold max xs (max x a)" by (rule Cons.IH)
  finally show ?case by simp
qed

lemma collect_Inr: "collect rs = Inr xs \<Longrightarrow> rs = map Inr xs"
  by (induction rs arbitrary: xs) (auto split: sum.splits)

lemma column_width_bounds:
  assumes "column_width eng cfg arr key = Inr n"
  shows "n \<le> 50 \<and> min (length key) 50 \<le> n"
proof -
  from assms obtain lens where n: "n = min (fold max lens (length key)) 50"
    by (auto simp: column_width_def and_then_def math_max_def split: sum.splits if_splits)
  have "length key \<le> fold max lens (length key)"
    by (rule fold_max_ge)
  then show ?thesis unfolding n by auto
qed

lemma widths_column:
  assumes "widths eng cfg arr keys = Inr cols" and "(key, w) \<in> set cols"
  shows "\<exists>n. column_width eng cfg arr key = Inr n \<and> w = widths_read key n"
proof -
  let ?f = "\<lambda>key. map_sum id (\<lambda>n. (key, widths_read key n)) (column_width eng cfg arr key)"
  have "map ?f keys = map Inr cols"
    using assms(1) unfolding widths_def by (rule collect_Inr)
  then have "Inr (key, w) \<in> set (map ?f keys)"
    using assms(2) by simp
  then obtain k where "?f k = Inr (key, w)" by auto
  then show ?thesis
    by (cases "column_width eng cfg arr k") auto
qed

lemma column_width_one_row:
  assumes "formatPrimitive cfg (get_prop row key) = Inr t" and "2 \<le> max_arguments eng"
  shows "column_width eng cfg [row] key = Inr (min (max (length (stripColors t)) (length key)) 50)"
  using assms by (simp add: column_width_def valuesLens_def and_then_def math_max_def)

text \<open>
  Claim C2, as stated, fails: a key of 51 characters gets a column of width 50, below
  the length of its header. The table is the one-row table with that single key.
\<close>

theorem widths_long_key_counterexample:
  "table_mode [JObj [(replicate 51 0x61, JNull)]]
   \<and> widths sample_engine default_config [JObj [(replicate 51 0x61, JNull)]] [replicate 51 0x61]
       = Inr [(replicate 51 0x61, Number 50)]
   \<and> \<not> (length (replicate 51 (0x61 :: 16 word)) \<le> 50)"
proof -
  let ?k = "replicate 51 (0x61 :: 16 word)"
  have f: "formatPrimitive default_config (get_prop (JObj [(?k, JNull)]) ?k)
           = Inr (GRAY @ lit ''null'' @ RESET)"
    by simp
  have e: "2 \<le> max_arguments sample_engine"
    by (simp add: sample_engine_def)
  have "column_width sample_engine default_config [JObj [(?k, JNull)]] ?k
        = Inr (min (max (length (stripColors (GRAY @ lit ''null'' @ RESET))) (length ?k)) 50)"
    using f e by (rule column_width_one_row)
  then have cw: "column_width sample_engine default_config [JObj [(?k, JNull)]] ?k = Inr 50"
    by simp
  have "length ?k \<noteq> length (lit ''__proto__'')"
    by (simp add: lit_def)
  then have nk: "?k \<noteq> lit ''__proto__''" by (rule contrapos_nn) (simp only:)
  have w: "widths sample_engine default_config [JObj [(?k, JNull)]] [?k] = Inr [(?k, Number 50)]"
    unfolding widths_def using cw nk by (simp add: widths_read_def)
  have tm: "table_mode [JObj [(?k, JNull)]]"
    by (simp add: table_mode_def)
  show ?thesis
    using tm w by simp
qed

text \<open>
  Claim C2, amended. In every table (a sequence that meets the test for the table, of
  records with distinct keys) whose widths are computed without an exception, every
  column whose key is not \<open>__proto__\<close> has a number as its width, at most 50 and at
  least the smaller of the header length and 50; the width reaches the header length
  exactly when the key has at most 50 characters.
\<close>

theorem widths_bounds:
  assumes "table_mode arr" and "list_all wf_record arr"
    and "widths eng cfg arr (object_keys (hd arr)) = Inr cols"
    and "(key, w) \<in> set cols"
    and "key \<noteq> lit ''__proto__''"
  shows "\<exists>n. w = Number n \<and> n \<le> 50 \<and> min (length key) 50 \<le> n
             \<and> (length key \<le> n) = (length key \<le> 50)"
proof -
  from widths_column [OF assms(3,4)] obtain n
    where n: "column_width eng cfg arr key = Inr n" and w: "w = widths_read key n"
    by blast
  have "w = Number n" using w assms(5) by (simp add: widths_read_def)
  moreover have "n \<le> 50 \<and> min (length key) 50 \<le> n"
    using n by (rule column_width_bounds)
  ultimately show ?thesis by auto
qed

theorem widths_bounds_witness:
  "table_mode [JObj [(lit ''name'', JStr (lit ''general'')), (lit ''member_count'', JNum (lit ''123''))]]
   \<and> widths sample_engine default_config
     [JObj [(lit ''name'', JStr (lit ''general'')), (lit ''member_count'', JNum (lit ''123''))]]
     [lit ''name'', lit ''member_count'']
     = Inr [(lit ''name'', Number 7), (lit ''member_count'', Number 12)]
   \<and> (\<exists>n. Number 7 = Number n \<and> n \<le> 50 \<and> min (length (lit ''name'')) 50 \<le> n
            \<and> (length (lit ''name'') \<le> n) = (length (lit ''name'') \<le> 50))"
proof -
  let ?row = "JObj [(lit ''name'', JStr (lit ''general'')), (lit ''member_count'', JNum (lit ''123''))]"
  have tm: "table_mode [?row]"
    by (simp add: table_mode_def)
  have wf: "list_all wf_record [?row]"
    by (simp add: wf_record_def lit_def)
  have e: "2 \<le> max_arguments sample_engine"
    by (simp add: sample_engine_def)
  have f1: "formatPrimitive default_config (get_prop ?row (lit ''name''))
            = Inr (YELLOW @ lit ''general'' @ RESET)"
    by (simp add: default_config_def eval_truncate)
  have f2: "formatPrimitive default_config (get_prop ?row (lit ''member_count''))
            = Inr (CYAN @ lit ''123'' @ RESET)"
    by (simp add: default_config_def eval_truncate)
  have s1: "length (stripColors (YELLOW @ lit ''general'' @ RESET)) = 7"
    by (simp add: eval_strip)
  have s2: "length (stripColors (CYAN @ lit ''123'' @ RESET)) = 3"
    by (simp add: eval_strip)
  have c1: "column_width sample_engine default_config [?row] (lit ''name'') = Inr 7"
    using column_width_one_row [OF f1 e] s1 by (simp add: lit_def)
  have c2: "column_width sample_engine default_config [?row] (lit ''member_count'') = Inr 12"
    using column_width_one_row [OF f2 e] s2 by (simp add: lit_def)
  have a: "widths sample_engine default_config [?row] [lit ''name'', lit ''member_count'']
     = Inr [(lit ''name'', Number 7), (lit ''member_count'', Number 12)]"
    unfolding widths_def using c1 c2 by (simp add: widths_read_def lit_def)
  have k: "object_keys (hd [?row]) = [lit ''name'', lit ''member_count'']"
    by simp
  have b: "(lit ''name'', Number 7) \<in> set [(lit ''name'', Number 7), (lit ''member_count'', Number 12)]"
    by simp
  have c: "lit ''name'' \<noteq> lit ''__proto__''"
    by (simp add: lit_def)
  show ?thesis
    using widths_bounds [OF tm wf a [folded k] b c] tm a by simp
qed

section \<open>Properties of truncation\<close>

lemma indexOf_member:
  "NL \<in> set s \<Longrightarrow> indexOf s NL = int (length (takeWhile (\<lambda>x. x \<noteq> NL) s))"
  by (simp add: indexOf_def)

lemma indexOf_absent: "NL \<notin> set s \<Longrightarrow> indexOf s NL = - 1"
  by (simp add: indexOf_def)

lemma first_break_less:
  "NL \<in> set s \<Longrightarrow> length (takeWhile (\<lambda>x. x \<noteq> NL) s) < length s"
  by (induction s) auto

lemma first_break_nth:
  "NL \<in> set s \<Longrightarrow> s ! length (takeWhile (\<lambda>x. x \<noteq> NL) s) = NL"
  using nth_length_takeWhile [of "\<lambda>x. x \<noteq> NL" s] first_break_less [of s] by simp



lemma effective_max_no_break:
  assumes "NL \<notin> set s"
  shows "effective_max s m = (case m of None \<Rightarrow> int (length s)
           | Some k \<Rightarrow> if k \<le> 0 then int (length s) else k)"
  using assms
  by (auto simp: effective_max_def indexOf_absent Let_def no_limit_def split: option.splits)



lemma truncate_compact:
  assumes "effective_max s m < int (length s)" and "\<not> (24 < effective_max s m \<and> d)"
    and "3 \<le> effective_max s m"
  shows "truncate d s m = take (nat (effective_max s m - 3)) s @ lit ''...''"
  using assms by (auto simp: truncate_def Let_def slice_def min_def)



text \<open>
  From a maximum of 3 on, the compact style gives a text of exactly the length of the
  maximum that ends in three dots.
\<close>

lemma truncate_compact_exact:
  assumes "NL \<notin> set s" and "3 \<le> m" and "m < int (length s)" and "\<not> (24 < m \<and> d)"
  shows "truncate d s (Some m) = take (nat (m - 3)) s @ lit ''...''"
    and "int (length (truncate d s (Some m))) = m"
proof -
  have e: "effective_max s (Some m) = m"
    using assms(1,2) by (simp add: effective_max_no_break)
  show t: "truncate d s (Some m) = take (nat (m - 3)) s @ lit ''...''"
    using truncate_compact [of s "Some m" d] assms unfolding e by simp
  have "nat (m - 3) \<le> length s" using assms(2,3) by linarith
  then have "length (take (nat (m - 3)) s) = nat (m - 3)" by simp
  then show "int (length (truncate d s (Some m))) = m"
    unfolding t using assms(2) by (simp add: lit_def)
qed

text \<open>
  Claim C4 at the inputs where the code departs from it. With a maximum of 1 or 2 the
  end of the slice is negative, \<open>slice\<close> counts it from the end of the string, and
  the ten characters \<open>abcdefghij\<close> come back as eleven or twelve; from a maximum
  of 3 on the result has the length of the maximum.
\<close>

theorem truncate_small_max_grows:
  "truncate False (lit ''abcdefghij'') (Some 1) = lit ''abcdefgh...''
   \<and> length (truncate False (lit ''abcdefghij'') (Some 1)) = 11
   \<and> truncate False (lit ''abcdefghij'') (Some 2) = lit ''abcdefghi...''
   \<and> truncate False (lit ''abcdefghij'') (Some 3) = lit ''...''"
  by (simp add: truncate_def effective_max_def indexOf_def no_limit_def slice_def lit_def)

text \<open>
  Claim C5, as stated, fails: of \<open>line1\<close>, the first line of a two-line string, only
  \<open>li\<close> is kept before the ellipsis, with the default configuration.
\<close>

theorem truncate_drops_first_line_end:
  "\<not> prefix (lit ''line1'') (truncate False (lit ''line1'' @ [NL] @ lit ''line2'') (Some (- 1)))"
  by (simp add: truncate_def effective_max_def indexOf_def no_limit_def slice_def lit_def)

text \<open>
  Claim C5, amended. When the first line break of a string is at index \<open>i\<close>, before the
  maximum (or there is no limit), and \<open>i\<close> is at least 3, then \<open>i\<close> becomes the
  effective maximum and the ellipsis is counted inside it: the result is the first
  \<open>i - 3\<close> characters of the first line followed by three dots, or, with the
  discourage flag set and \<open>i\<close> above 24, its first \<open>i - 21\<close> characters followed by
  the multi-line note. Nothing behind the line break is shown, whatever the maximum is.
\<close>

theorem truncate_at_line_break:
  assumes "NL \<in> set s" and "i = length (takeWhile (\<lambda>x. x \<noteq> NL) s)"
    and "no_limit m \<or> (\<exists>k. m = Some k \<and> int i < k)"
    and "3 \<le> i"
  shows "effective_max s m = int i
     \<and> truncate d s m =
        (if 24 < i \<and> d
         then take (i - 21) s @ [SP] @ RESET @ lit ''(multi-line ''
              @ int_toString (int (length s) - int i) @ lit '' more...)''
         else take (i - 3) s @ lit ''...'')"
proof -
  have il: "i < length s"
    using assms(1,2) first_break_less by simp
  have idx: "indexOf s NL = int i"
    using assms(1,2) by (simp add: indexOf_member)
  have e: "effective_max s m = int i"
    using assms(3) il idx
    by (auto simp: effective_max_def Let_def no_limit_def split: option.splits)
  have "s ! i = NL"
    using assms(1,2) first_break_nth by simp
  then have "last (take (Suc i) s) = NL"
    using il by (simp add: take_Suc_conv_app_nth)
  then have ends: "endsWith (slice s (int i + 1)) NL"
    using il by (auto simp: endsWith_def slice_def Let_def min_def nat_add_distrib)
  have s21: "24 < i \<Longrightarrow> slice s (int i - 21) = take (i - 21) s"
    using il by (auto simp: slice_def Let_def min_def nat_diff_distrib')
  have s3: "slice s (int i - 3) = take (i - 3) s"
    using il assms(4) by (auto simp: slice_def Let_def min_def nat_diff_distrib')
  have "truncate d s m =
        (if 24 < i \<and> d
         then take (i - 21) s @ [SP] @ RESET @ lit ''(multi-line ''
              @ int_toString (int (length s) - int i) @ lit '' more...)''
         else take (i - 3) s @ lit ''...'')"
    using il ends s21 s3 unfolding truncate_def e by (simp add: Let_def)
  with e show ?thesis by simp
qed

theorem truncate_at_line_break_witness:
  "truncate False (lit ''line1'' @ [NL] @ lit ''line2'') (Some (- 1)) = lit ''li...''
   \<and> effective_max (lit ''line1'' @ [NL] @ lit ''line2'') (Some (- 1)) = 5"
proof -
  have a: "NL \<in> set (lit ''line1'' @ [NL] @ lit ''line2'')" by simp
  have b: "(5::nat) = length (takeWhile (\<lambda>x. x \<noteq> NL) (lit ''line1'' @ [NL] @ lit ''line2''))"
    by (simp add: lit_def)
  have c: "no_limit (Some (- 1)) \<or> (\<exists>k. Some (- 1) = Some k \<and> int 5 < k)"
    by (simp add: no_limit_def)
  have d: "(3::nat) \<le> 5" by simp
  have t: "take 2 (lit ''line1'' @ [NL] @ lit ''line2'') = lit ''li''"
    by (simp add: lit_def)
  show ?thesis
    using truncate_at_line_break [OF a b c d, of False] t by (simp add: lit_def)
qed




section \<open>The choice between table and list\<close>

lemma same_keys_iff:
  assumes "distinct ks" and "distinct fs"
  shows "(length ks = length fs \<and> list_all (\<lambda>k. k \<in> set fs) ks) = (set ks = set fs)"
proof
  assume a: "length ks = length fs \<and> list_all (\<lambda>k. k \<in> set fs) ks"
  then have sub: "set ks \<subseteq> set fs" by (auto simp: list_all_iff)
  have "card (set ks) = card (set fs)"
    using a assms by (simp add: distinct_card)
  with sub show "set ks = set fs"
    by (simp add: card_subset_eq)
next
  assume e: "set ks = set fs"
  have "length ks = card (set ks)" using assms(1) by (simp add: distinct_card)
  also have "\<dots> = length fs" using e assms(2) by (simp add: distinct_card)
  finally show "length ks = length fs \<and> list_all (\<lambda>k. k \<in> set fs) ks"
    using e by (simp add: list_all_iff)
qed

lemma table_mode_Cons:
  assumes "list_all wf_record (first # rest)"
  shows "table_mode (first # rest) =
     (list_all (\<lambda>v. getType v = Object) (first # rest)
      \<and> list_all (\<lambda>v. shape v = shape first) (first # rest)
      \<and> object_keys first \<noteq> [])"
proof -
  have d: "\<And>v. v \<in> set (first # rest) \<Longrightarrow> distinct (object_keys v)"
    using assms by (auto simp: list_all_iff wf_record_def)
  have "\<And>v. v \<in> set (first # rest) \<Longrightarrow>
      (length (object_keys v) = length (object_keys first)
        \<and> list_all (\<lambda>k. k \<in> set (object_keys first)) (object_keys v))
      = (shape v = shape first)"
    unfolding shape_def by (rule same_keys_iff) (simp_all add: d)
  then have eq: "list_all (\<lambda>item. length (object_keys item) = length (object_keys first)
                    \<and> list_all (\<lambda>k. k \<in> set (object_keys first)) (object_keys item)) (first # rest)
             = list_all (\<lambda>v. shape v = shape first) (first # rest)"
    unfolding list_all_iff by blast
  show ?thesis
    unfolding table_mode_def Let_def list.case eq by auto
qed

lemma spec_table_condition_Cons:
  "spec_table_condition (first # rest) =
     (list_all (\<lambda>v. getType v = Object) (first # rest)
      \<and> list_all (\<lambda>v. shape v = shape first) (first # rest)
      \<and> object_keys first \<noteq> [])"
  unfolding spec_table_condition_def list_all_iff shape_def by auto

text \<open>
  Claim C1, as stated, fails for the empty sequence: it does not meet the condition for
  the table, and it is printed as \<open>[]\<close>, not as the list of its (no) elements.
\<close>

theorem printArray_empty_counterexample:
  "\<not> spec_table_condition []
   \<and> printArray sample_engine default_config [] 0 = Inr (lit ''[]'')
   \<and> printArray sample_engine default_config [] 0
       \<noteq> map_sum id (join [NL]) (collect (map (\<lambda>item. print sample_engine default_config item 1) []))"
  by (simp add: spec_table_condition_def printArray.simps lit_def)

text \<open>
  Claim C1, amended. For a sequence of values whose records have distinct keys, the
  test of the code selects the table exactly when the sequence is not empty, every
  element is a record, and all records have the same key set, with at least one key.
  Then the sequence is printed by \<open>printTable\<close>; the empty sequence is printed as
  \<open>[]\<close> at the current indent; every other sequence is printed as the list of its
  elements, each printed at the next indent level, joined by line breaks.
\<close>

theorem table_mode_iff:
  assumes "list_all wf_record arr"
  shows "table_mode arr = spec_table_condition arr
     \<and> printArray eng cfg arr n =
         (if spec_table_condition arr then printTable eng cfg arr n
          else if arr = [] then Inr (replicate (n * 2) SP @ lit ''[]'')
          else map_sum id (join [NL]) (collect (map (\<lambda>item. print eng cfg item (n + 1)) arr)))"
proof -
  have t: "table_mode arr = spec_table_condition arr"
  proof (cases arr)
    case Nil
    then show ?thesis by (simp add: table_mode_def spec_table_condition_def)
  next
    case (Cons first rest)
    then show ?thesis
      using assms table_mode_Cons spec_table_condition_Cons by simp
  qed
  have "arr = [] \<Longrightarrow> \<not> spec_table_condition arr"
    by (simp add: spec_table_condition_def)
  then show ?thesis
    using t by (auto simp: printArray.simps)
qed

theorem table_mode_iff_witness:
  "table_mode [JObj [(lit ''x'', JNum (lit ''1'')), (lit ''y'', JNum (lit ''2''))],
               JObj [(lit ''y'', JNum (lit ''4'')), (lit ''x'', JNum (lit ''3''))]]
   \<and> printArray sample_engine default_config
         [JObj [(lit ''x'', JNum (lit ''1'')), (lit ''y'', JNum (lit ''2''))],
          JObj [(lit ''y'', JNum (lit ''4'')), (lit ''x'', JNum (lit ''3''))]] 0
       = printTable sample_engine default_config
         [JObj [(lit ''x'', JNum (lit ''1'')), (lit ''y'', JNum (lit ''2''))],
          JObj [(lit ''y'', JNum (lit ''4'')), (lit ''x'', JNum (lit ''3''))]] 0
   \<and> \<not> spec_table_condition [JObj [(lit ''x'', JNum (lit ''1''))], JObj [(lit ''y'', JNum (lit ''2''))]]
   \<and> printArray sample_engine default_config
         [JObj [(lit ''x'', JNum (lit ''1''))], JObj [(lit ''y'', JNum (lit ''2''))]] 0
       = map_sum id (join [NL]) (collect (map (\<lambda>item. print sample_engine default_config item (0 + 1))
           [JObj [(lit ''x'', JNum (lit ''1''))], JObj [(lit ''y'', JNum (lit ''2''))]]))"
proof -
  let ?same = "[JObj [(lit ''x'', JNum (lit ''1'')), (lit ''y'', JNum (lit ''2''))],
                JObj [(lit ''y'', JNum (lit ''4'')), (lit ''x'', JNum (lit ''3''))]]"
  let ?diff = "[JObj [(lit ''x'', JNum (lit ''1''))], JObj [(lit ''y'', JNum (lit ''2''))]]"
  have w1: "list_all wf_record ?same" by (simp add: wf_record_def lit_def)
  have w2: "list_all wf_record ?diff" by (simp add: wf_record_def)
  have t1: "table_mode ?same" by (simp add: table_mode_def lit_def)
  have t2: "\<not> table_mode ?diff" by (simp add: table_mode_def lit_def)
  show ?thesis
    using table_mode_iff [OF w1, of sample_engine default_config 0]
      table_mode_iff [OF w2, of sample_engine default_config 0] t1 t2
    by (simp del: join.simps list.map collect.simps)
qed

section \<open>Indentation\<close>

lemma leading_spaces_indent:
  "c \<noteq> SP \<Longrightarrow> leading_spaces (replicate k SP @ c # rest) = k"
  by (induction k) (simp_all add: leading_spaces_def)

lemma sgr_Cons: "sgr code @ rest = ESC # tl (sgr code @ rest)"
  by (simp add: sgr_def)

lemma leading_spaces_sgr: "leading_spaces (replicate k SP @ sgr code @ rest) = k"
  using leading_spaces_indent [of ESC k "tl (sgr code @ rest)"] sgr_Cons [of code rest] by simp

lemma key_prefix: "[SP, SP] @ replicate (n * 2) SP = replicate (2 * n + 2) SP"
  by (simp add: mult.commute)

text \<open>
  Claim C7, as stated, fails: the line of a record's key at indent 0 begins with two
  blanks, not with none.
\<close>

theorem record_line_indent_counterexample:
  "print sample_engine default_config (JObj [(lit ''a'', JNull)]) 0
     = Inr ([SP, SP] @ BOLD @ lit ''a'' @ RESET @ lit '': '' @ GRAY @ lit ''null'' @ RESET)
   \<and> leading_spaces ([SP, SP] @ BOLD @ lit ''a'' @ RESET @ lit '': '' @ GRAY @ lit ''null'' @ RESET)
       \<noteq> 2 * 0"
  by (simp add: print.simps printObject.simps key_value_line_def leading_spaces_def sgr_def)

text \<open>
  Claim C7, amended. A non-empty record printed at indent level \<open>n\<close> is the sequence
  of its entries in key order, joined by line breaks: for a key with a scalar or
  \<open>null\<close> value the line of \<open>2 * n + 2\<close> blanks, the bold key, a colon, a blank and
  the formatted value; for any other key the line of \<open>2 * n + 2\<close> blanks, the bold
  key and a colon, followed by the value printed by a call at level \<open>n + 1\<close>, which
  writes its own prefix. Such a line begins with exactly \<open>2 * n + 2\<close> blanks. A
  scalar or \<open>null\<close> printed at level \<open>n\<close> is \<open>2 * n\<close> blanks followed by its
  colour code, so it begins with exactly \<open>2 * n\<close> blanks; \<open>{}\<close> and \<open>[]\<close> are
  written after \<open>2 * n\<close> blanks.
\<close>

theorem indentation_prefix:
  "print eng cfg (JObj (kv # kvs)) n =
     map_sum id (\<lambda>ls. join [NL] (concat ls))
       (collect (map (\<lambda>(key, v).
          if getType v = Primitive
          then map_sum id
                 (\<lambda>text. [replicate (2 * n + 2) SP @ BOLD @ key @ RESET @ lit '': '' @ text])
                 (formatPrimitive cfg v)
          else map_sum id
                 (\<lambda>block. [replicate (2 * n + 2) SP @ BOLD @ key @ RESET @ lit '':'', block])
                 (print eng cfg v (n + 1)))
        (kv # kvs)))
   \<and> leading_spaces (replicate (2 * n + 2) SP @ BOLD @ rest) = 2 * n + 2
   \<and> print eng cfg JNull n = Inr (replicate (2 * n) SP @ GRAY @ lit ''null'' @ RESET)
   \<and> print eng cfg (JBool b) n
       = Inr (replicate (2 * n) SP @ (if b then GREEN @ lit ''true'' @ RESET else RED @ lit ''false'' @ RESET))
   \<and> print eng cfg (JStr s) n
       = Inr (replicate (2 * n) SP @ YELLOW
              @ truncate (discourage_multiline cfg) s (max_prim_length cfg) @ RESET)
   \<and> print eng cfg (JNum t) n
       = Inr (replicate (2 * n) SP @ CYAN
              @ truncate (discourage_multiline cfg) t (max_prim_length cfg) @ RESET)
   \<and> leading_spaces (replicate (2 * n) SP @ sgr code @ rest) = 2 * n
   \<and> print eng cfg (JObj []) n = Inr (replicate (2 * n) SP @ lit ''{}'')
   \<and> print eng cfg (JArr []) n = Inr (replicate (2 * n) SP @ lit ''[]'')"
proof -
  have r: "print eng cfg (JObj (kv # kvs)) n =
     map_sum id (\<lambda>ls. join [NL] (concat ls))
       (collect (map (\<lambda>(key, v).
          if getType v = Primitive
          then map_sum id
                 (\<lambda>text. [replicate (2 * n + 2) SP @ BOLD @ key @ RESET @ lit '': '' @ text])
                 (formatPrimitive cfg v)
          else map_sum id
                 (\<lambda>block. [replicate (2 * n + 2) SP @ BOLD @ key @ RESET @ lit '':'', block])
                 (print eng cfg v (n + 1)))
        (kv # kvs)))"
  proof -
    have f: "(\<lambda>kv. if getType (snd kv) = Primitive
                 then map_sum id (\<lambda>text. [key_value_line n (fst kv) text])
                        (formatPrimitive cfg (snd kv))
                 else map_sum id (\<lambda>block. [key_line n (fst kv), block])
                        (print eng cfg (snd kv) (n + 1)))
           = (\<lambda>(key, v).
                 if getType v = Primitive
                 then map_sum id
                        (\<lambda>text. [replicate (2 * n + 2) SP @ BOLD @ key @ RESET @ lit '': '' @ text])
                        (formatPrimitive cfg v)
                 else map_sum id
                        (\<lambda>block. [replicate (2 * n + 2) SP @ BOLD @ key @ RESET @ lit '':'', block])
                        (print eng cfg v (n + 1)))"
      by (auto simp: fun_eq_iff key_value_line_def key_line_def mult.commute)
    have "print eng cfg (JObj (kv # kvs)) n = printObject eng cfg (kv # kvs) n"
      by (simp add: print.simps)
    also have "\<dots> = map_sum id (\<lambda>ls. join [NL] (concat ls)) (collect (map (\<lambda>kv.
             if getType (snd kv) = Primitive
             then map_sum id (\<lambda>text. [key_value_line n (fst kv) text])
                    (formatPrimitive cfg (snd kv))
             else map_sum id (\<lambda>block. [key_line n (fst kv), block])
                    (print eng cfg (snd kv) (n + 1))) (kv # kvs)))"
      unfolding printObject.simps [of eng cfg "kv # kvs" n] by simp
    finally show ?thesis unfolding f .
  qed
  have p: "print eng cfg JNull n = Inr (replicate (2 * n) SP @ GRAY @ lit ''null'' @ RESET)"
    "print eng cfg (JBool b) n
       = Inr (replicate (2 * n) SP @ (if b then GREEN @ lit ''true'' @ RESET else RED @ lit ''false'' @ RESET))"
    "print eng cfg (JStr s) n
       = Inr (replicate (2 * n) SP @ YELLOW
              @ truncate (discourage_multiline cfg) s (max_prim_length cfg) @ RESET)"
    "print eng cfg (JNum t) n
       = Inr (replicate (2 * n) SP @ CYAN
              @ truncate (discourage_multiline cfg) t (max_prim_length cfg) @ RESET)"
    "print eng cfg (JObj []) n = Inr (replicate (2 * n) SP @ lit ''{}'')"
    "print eng cfg (JArr []) n = Inr (replicate (2 * n) SP @ lit ''[]'')"
    by (simp_all add: print.simps printObject.simps printArray.simps mult.commute)
  show ?thesis
    using r p leading_spaces_sgr [of "2 * n + 2" "''1''" rest] leading_spaces_sgr [of "2 * n" code rest]
    by (simp only:)
qed

section \<open>Termination, exceptions and recursion depth\<close>

lemma collect_returns:
  "(\<And>x. x \<in> set xs \<Longrightarrow> \<exists>y. f x = Inr y) \<Longrightarrow> \<exists>ys. collect (map f xs) = Inr ys"
proof (induction xs)
  case Nil
  show ?case by simp
next
  case (Cons x xs)
  from Cons.prems obtain y where y: "f x = Inr y" by auto
  from Cons obtain ys where "collect (map f xs) = Inr ys" by auto
  with y show ?case by simp
qed

lemma collect_length: "collect rs = Inr xs \<Longrightarrow> length xs = length rs"
  by (drule collect_Inr) simp

lemma fold_max_member: "(y::nat) \<in> set ys \<Longrightarrow> y \<le> fold max ys a"
proof (induction ys arbitrary: a)
  case Nil
  then show ?case by simp
next
  case (Cons x xs)
  show ?case
  proof (cases "y = x")
    case True
    have "x \<le> max x a" by simp
    also have "\<dots> \<le> fold max xs (max x a)" by (rule fold_max_ge)
    finally show ?thesis using True by simp
  next
    case False
    then have "y \<in> set xs" using Cons.prems by simp
    then show ?thesis using Cons.IH by simp
  qed
qed

lemma js_String_returns: "renderable eng v \<Longrightarrow> \<exists>s. js_String v = Inr s"
proof (induction v rule: measure_induct_rule [where f = size])
  case (less v)
  show ?case
  proof (cases v)
    case (JArr xs)
    have "\<And>x. x \<in> set xs \<Longrightarrow>
            \<exists>y. (if x = JNull \<or> x = JUndefined then Inr [] else js_String x) = Inr y"
    proof -
      fix x assume x: "x \<in> set xs"
      have "size x < size v"
        using size_list_member [OF x] JArr by simp
      moreover have "renderable eng x"
        using less.prems x JArr by (simp add: list_all_iff)
      ultimately have "\<exists>s. js_String x = Inr s" by (rule less.IH)
      then show "\<exists>y. (if x = JNull \<or> x = JUndefined then Inr [] else js_String x) = Inr y"
        by (cases "x = JNull \<or> x = JUndefined") (simp_all only: if_True if_False, blast)
    qed
    then have "\<exists>ys. collect (map (\<lambda>x. if x = JNull \<or> x = JUndefined then Inr []
                                        else js_String x) xs) = Inr ys"
      by (rule collect_returns)
    then obtain ys where
      "collect (map (\<lambda>x. if x = JNull \<or> x = JUndefined then Inr [] else js_String x) xs) = Inr ys"
      by (rule exE)
    then have "js_String (JArr xs) = Inr (join (lit '','') ys)"
      by (simp only: js_String.simps map_sum.simps id_apply)
    then show ?thesis unfolding JArr by (rule exI)
  next
    case (JObj kvs)
    then show ?thesis using less.prems by simp
  next
    case JNull then show ?thesis by simp
  next
    case (JStr s) then show ?thesis by simp
  next
    case (JNum t) then show ?thesis by simp
  next
    case (JBool b) then show ?thesis by simp
  next
    case JUndefined then show ?thesis by simp
  qed
qed

lemma formatPrimitive_returns: "renderable eng v \<Longrightarrow> \<exists>s. formatPrimitive cfg v = Inr s"
  using js_String_returns [of eng v] by (cases v) simp_all

lemma get_prop_renderable: "renderable eng row \<Longrightarrow> renderable eng (get_prop row key)"
proof (cases row)
  case (JObj kvs)
  assume r: "renderable eng row"
  show ?thesis
  proof (cases "map_of kvs key")
    case None
    then show ?thesis using JObj by simp
  next
    case (Some v)
    then have "(key, v) \<in> set kvs" by (rule map_of_SomeD)
    then have "renderable eng v" using r JObj by (auto simp: list_all_iff)
    then show ?thesis using JObj Some by simp
  qed
qed simp_all

lemma column_width_returns:
  assumes "list_all (renderable eng) arr" and "length arr < max_arguments eng"
  shows "\<exists>n. column_width eng cfg arr key = Inr n"
proof -
  have "\<And>row. row \<in> set arr \<Longrightarrow>
      \<exists>y. map_sum id (\<lambda>str. length (stripColors str)) (formatPrimitive cfg (get_prop row key)) = Inr y"
  proof -
    fix row assume "row \<in> set arr"
    then have "renderable eng (get_prop row key)"
      using assms(1) by (simp add: list_all_iff get_prop_renderable)
    then obtain s where "formatPrimitive cfg (get_prop row key) = Inr s"
      using formatPrimitive_returns by blast
    then show "\<exists>y. map_sum id (\<lambda>str. length (stripColors str))
                     (formatPrimitive cfg (get_prop row key)) = Inr y"
      by simp
  qed
  then have "\<exists>lens. valuesLens cfg arr key = Inr lens"
    unfolding valuesLens_def by (rule collect_returns)
  then obtain lens where l: "valuesLens cfg arr key = Inr lens"
    by (rule exE)
  then have "length lens = length arr"
    unfolding valuesLens_def by (simp add: collect_length)
  then show ?thesis
    using l assms(2) by (simp add: column_width_def and_then_def math_max_def)
qed

lemma widths_returns:
  assumes "list_all (renderable eng) arr" and "length arr < max_arguments eng"
  shows "\<exists>cols. widths eng cfg arr keys = Inr cols \<and> length cols = length keys"
proof -
  have "\<And>key. key \<in> set keys \<Longrightarrow>
     \<exists>y. map_sum id (\<lambda>n. (key, widths_read key n)) (column_width eng cfg arr key) = Inr y"
  proof -
    fix key
    obtain n where "column_width eng cfg arr key = Inr n"
      using column_width_returns [OF assms] by blast
    then show "\<exists>y. map_sum id (\<lambda>n. (key, widths_read key n)) (column_width eng cfg arr key) = Inr y"
      by simp
  qed
  then have "\<exists>cols. widths eng cfg arr keys = Inr cols"
    unfolding widths_def by (rule collect_returns)
  then obtain cols where c: "widths eng cfg arr keys = Inr cols"
    by (rule exE)
  then have "length cols = length keys"
    unfolding widths_def by (simp add: collect_length)
  with c show ?thesis by blast
qed

lemma fold_total_ge:
  "fold add_width cols acc = Some t \<Longrightarrow> \<exists>a. acc = Some a \<and> a + 3 * int (length cols) \<le> t"
proof (induction cols arbitrary: acc)
  case Nil
  then show ?case by simp
next
  case (Cons col cols)
  have "fold add_width cols (add_width col acc) = Some t"
    using Cons.prems by simp
  then obtain b where b: "add_width col acc = Some b" and le: "b + 3 * int (length cols) \<le> t"
    using Cons.IH by blast
  from b obtain a n where "acc = Some a" and "b = a + int n + 3"
    unfolding add_width_def by (auto split: option.splits width_value.splits)
  with le show ?case by simp
qed

lemma totalWidth_pos: "totalWidth cols = Some t \<Longrightarrow> cols \<noteq> [] \<Longrightarrow> 2 \<le> t"
proof -
  assume t: "totalWidth cols = Some t" and ne: "cols \<noteq> []"
  from t obtain s where s: "fold add_width cols (Some (- 3)) = Some s" and ts: "t = s + 2"
    unfolding totalWidth_def by auto
  from fold_total_ge [OF s] have "- 3 + 3 * int (length cols) \<le> s" by simp
  moreover have "1 \<le> int (length cols)" using ne by (cases cols) simp_all
  ultimately show ?thesis using ts by linarith
qed

lemma cell_display_returns: "renderable eng v \<Longrightarrow> \<exists>t. cell_display cfg v w = Inr t"
proof -
  assume "renderable eng v"
  then obtain s where "formatPrimitive cfg v = Inr s"
    using formatPrimitive_returns by blast
  then show ?thesis by (simp add: cell_display_def)
qed




lemma table_mode_Nil: "\<not> table_mode []"
  by (simp add: table_mode_def)

lemma table_mode_keys: "table_mode (first # rest) \<Longrightarrow> object_keys first \<noteq> []"
  unfolding table_mode_def Let_def list.case
  by (cases "list_all (\<lambda>item. getType item = Object) (first # rest)") (simp_all only: if_True if_False, auto)

lemma table_mode_Cons_keys:
  "table_mode arr \<Longrightarrow> \<exists>first rest. arr = first # rest"
  "table_mode arr \<Longrightarrow> arr = first # rest \<Longrightarrow> object_keys first \<noteq> []"
  using table_mode_Nil table_mode_keys by (cases arr, auto)+

lemma printTable_returns:
  assumes "table_mode arr" and "list_all (renderable eng) arr" and "length arr < max_arguments eng"
  shows "\<exists>t. printTable eng cfg arr n = Inr t"
proof -
  from assms(1) obtain first rest where arr: "arr = first # rest"
    using table_mode_Cons_keys by blast
  have keys: "object_keys first \<noteq> []"
    using assms(1) arr table_mode_Cons_keys by blast
  obtain cols where c: "widths eng cfg arr (object_keys first) = Inr cols"
    and lc: "length cols = length (object_keys first)"
    using widths_returns [OF assms(2,3)] by blast
  have ne: "cols \<noteq> []" using lc keys by auto
  obtain rule where r:
    "(case totalWidth cols of None \<Rightarrow> Inr [] | Some t \<Rightarrow> js_repeat BOX_H t) = Inr rule"
  proof (cases "totalWidth cols")
    case None
    then show ?thesis using that by simp
  next
    case (Some t)
    then have "2 \<le> t" using ne by (rule totalWidth_pos)
    then show ?thesis using that Some by (simp add: js_repeat_def)
  qed
  let ?row = "\<lambda>row. map_sum id (\<lambda>cells. replicate (n * 2) SP @ [BOX_V] @ join [BOX_V] cells @ [BOX_V])
                 (collect (map (\<lambda>col.
                    map_sum id (\<lambda>display. [SP] @ display @ [SP])
                      (cell_display cfg (get_prop row (fst col)) (snd col))) cols))"
  have "\<And>row. row \<in> set arr \<Longrightarrow> \<exists>y. ?row row = Inr y"
  proof -
    fix row assume "row \<in> set arr"
    then have rr: "renderable eng row" using assms(2) by (simp add: list_all_iff)
    have "\<And>col. col \<in> set cols \<Longrightarrow>
        \<exists>y. map_sum id (\<lambda>display. [SP] @ display @ [SP])
               (cell_display cfg (get_prop row (fst col)) (snd col)) = Inr y"
    proof -
      fix col :: "jsstring \<times> width_value"
      obtain t where "cell_display cfg (get_prop row (fst col)) (snd col) = Inr t"
        using cell_display_returns [OF get_prop_renderable [OF rr]] by blast
      then show "\<exists>y. map_sum id (\<lambda>display. [SP] @ display @ [SP])
               (cell_display cfg (get_prop row (fst col)) (snd col)) = Inr y"
        by simp
    qed
    then have "\<exists>cells. collect (map (\<lambda>col.
                    map_sum id (\<lambda>display. [SP] @ display @ [SP])
                      (cell_display cfg (get_prop row (fst col)) (snd col))) cols) = Inr cells"
      by (rule collect_returns)
    then obtain cells where "collect (map (\<lambda>col.
                    map_sum id (\<lambda>display. [SP] @ display @ [SP])
                      (cell_display cfg (get_prop row (fst col)) (snd col))) cols) = Inr cells"
      by (rule exE)
    then show "\<exists>y. ?row row = Inr y" by simp
  qed
  then have "\<exists>rows. collect (map ?row arr) = Inr rows"
    by (rule collect_returns)
  then obtain rows where rows: "collect (map ?row arr) = Inr rows"
    by (rule exE)
  show ?thesis
    unfolding arr
    by (simp only: printTable_def list.case Let_def c [unfolded arr] r rows [unfolded arr]
        and_then_def sum.case) (rule exI, rule refl)
qed

lemma print_d_enough:
  "nesting v < d \<Longrightarrow> print_d d eng cfg v i = print eng cfg v i"
proof (induction d arbitrary: v i)
  case 0
  then show ?case by simp
next
  case (Suc d)
  show ?case
  proof (cases v)
    case (JArr arr)
    have "\<And>x. x \<in> set arr \<Longrightarrow> print_d d eng cfg x (i + 1) = print eng cfg x (i + 1)"
    proof -
      fix x assume x: "x \<in> set arr"
      then have "nesting x \<le> fold max (map nesting arr) 0"
        by (intro fold_max_member) simp
      then have "nesting x < d" using Suc.prems JArr by simp
      then show "print_d d eng cfg x (i + 1) = print eng cfg x (i + 1)" by (rule Suc.IH)
    qed
    then have m: "map (\<lambda>item. print_d d eng cfg item (i + 1)) arr
               = map (\<lambda>item. print eng cfg item (i + 1)) arr"
      by simp
    show ?thesis
      unfolding JArr print_d.simps jsval.case printArray_d.simps
        print.simps [of _ _ "JArr arr"] printArray.simps m
      by (rule refl)
  next
    case (JObj kvs)
    have "\<And>kv. kv \<in> set kvs \<Longrightarrow>
            print_d d eng cfg (snd kv) (i + 1) = print eng cfg (snd kv) (i + 1)"
    proof -
      fix kv assume kv: "kv \<in> set kvs"
      then have "nesting (snd kv) \<le> fold max (map (\<lambda>kv. nesting (snd kv)) kvs) 0"
        by (intro fold_max_member) auto
      then have "nesting (snd kv) < d" using Suc.prems JObj by simp
      then show "print_d d eng cfg (snd kv) (i + 1) = print eng cfg (snd kv) (i + 1)"
        by (rule Suc.IH)
    qed
    then have "map (\<lambda>kv.
             if getType (snd kv) = Primitive
             then map_sum id (\<lambda>text. [key_value_line i (fst kv) text])
                    (formatPrimitive cfg (snd kv))
             else map_sum id (\<lambda>block. [key_line i (fst kv), block])
                    (print_d d eng cfg (snd kv) (i + 1))) kvs
       = map (\<lambda>kv.
             if getType (snd kv) = Primitive
             then map_sum id (\<lambda>text. [key_value_line i (fst kv) text])
                    (formatPrimitive cfg (snd kv))
             else map_sum id (\<lambda>block. [key_line i (fst kv), block])
                    (print eng cfg (snd kv) (i + 1))) kvs"
      by simp
    then show ?thesis
      unfolding JObj print_d.simps jsval.case printObject_d.simps
        print.simps [of _ _ "JObj kvs"] printObject.simps
      by (simp only:)
  qed (simp_all add: print.simps)
qed

lemma print_returns: "renderable eng v \<Longrightarrow> \<exists>t. print eng cfg v n = Inr t"
proof (induction v arbitrary: n rule: measure_induct_rule [where f = size])
  case (less v)
  show ?case
  proof (cases v)
    case (JArr arr)
    have ra: "list_all (renderable eng) arr" and la: "length arr < max_arguments eng"
      using less.prems JArr by simp_all
    show ?thesis
    proof (cases "arr = []")
      case True
      show ?thesis unfolding JArr True by (simp add: print.simps [of _ _ "JArr []"] printArray.simps)
    next
      case False
      show ?thesis
      proof (cases "table_mode arr")
        case True
        then obtain t where "printTable eng cfg arr n = Inr t"
          using printTable_returns [OF True ra la] by blast
        then show ?thesis
          using JArr False True by (simp add: print.simps [of _ _ "JArr arr"] printArray.simps)
      next
        case nt: False
        have "\<And>x. x \<in> set arr \<Longrightarrow> \<exists>y. print eng cfg x (n + 1) = Inr y"
        proof -
          fix x assume x: "x \<in> set arr"
          have "size x < size v"
            using size_list_member [OF x] JArr by simp
          moreover have "renderable eng x"
            using ra x by (simp add: list_all_iff)
          ultimately show "\<exists>y. print eng cfg x (n + 1) = Inr y" by (rule less.IH)
        qed
        then have "\<exists>ys. collect (map (\<lambda>item. print eng cfg item (n + 1)) arr) = Inr ys"
          by (rule collect_returns)
        then obtain ys where "collect (map (\<lambda>item. print eng cfg item (n + 1)) arr) = Inr ys"
          by (rule exE)
        then show ?thesis
          using JArr False nt by (simp add: print.simps [of _ _ "JArr arr"] printArray.simps)
      qed
    qed
  next
    case (JObj kvs)
    show ?thesis
    proof (cases "kvs = []")
      case True
      show ?thesis unfolding JObj True by (simp add: print.simps [of _ _ "JObj []"] printObject.simps)
    next
      case False
      let ?entry = "\<lambda>kv. if getType (snd kv) = Primitive
             then map_sum id (\<lambda>text. [key_value_line n (fst kv) text])
                    (formatPrimitive cfg (snd kv))
             else map_sum id (\<lambda>block. [key_line n (fst kv), block])
                    (print eng cfg (snd kv) (n + 1))"
      have "\<And>kv. kv \<in> set kvs \<Longrightarrow> \<exists>y. ?entry kv = Inr y"
      proof -
        fix kv assume kv: "kv \<in> set kvs"
        have r: "renderable eng (snd kv)"
          using less.prems JObj kv by (simp add: list_all_iff)
        show "\<exists>y. ?entry kv = Inr y"
        proof (cases "getType (snd kv) = Primitive")
          case True
          obtain s where "formatPrimitive cfg (snd kv) = Inr s"
            using formatPrimitive_returns [OF r] by blast
          then show ?thesis using True by simp
        next
          case False
          have "(fst kv, snd kv) \<in> set kvs" using kv by simp
          then have "size (snd kv) < size v"
            using size_list_snd_member [of "fst kv" "snd kv" kvs] JObj by simp
          then obtain t where "print eng cfg (snd kv) (n + 1) = Inr t"
            using less.IH r by blast
          then show ?thesis using False by simp
        qed
      qed
      then have "\<exists>ls. collect (map ?entry kvs) = Inr ls"
        by (rule collect_returns)
      then obtain ls where "collect (map ?entry kvs) = Inr ls"
        by (rule exE)
      then show ?thesis
        using JObj False by (simp add: print.simps [of _ _ "JObj kvs"] printObject.simps)
    qed
  qed (simp_all add: print.simps)
qed

text \<open>
  On a value in which no record has an own key \<open>toString\<close> and every sequence has
  fewer members than the engine admits arguments, \<open>print\<close> returns a text, and so
  does the printer with a budget of one more than the nesting depth of the value: the
  depth of the recursion is bounded by the nesting depth.
\<close>

lemma print_returns_within_depth:
  assumes "renderable eng v"
  shows "\<exists>text. print eng cfg v n = Inr text
                \<and> print_d (Suc (nesting v)) eng cfg v n = Inr text"
proof -
  obtain out where "print eng cfg v n = Inr out"
    using print_returns [OF assms] by blast
  moreover have "print_d (Suc (nesting v)) eng cfg v n = print eng cfg v n"
    by (rule print_d_enough) simp
  ultimately show ?thesis by simp
qed

text \<open>
  A table with at least as many rows as the engine admits arguments raises
  \<open>RangeError\<close> in the spread of \<open>Math.max\<close>, for the first column already.
\<close>

lemma print_large_table_throws:
  assumes "table_mode arr" and "list_all (renderable eng) arr"
    and "max_arguments eng \<le> length arr"
  shows "print eng cfg (JArr arr) n = Inl RangeError"
proof -
  from assms(1) obtain first rest where arr: "arr = first # rest"
    using table_mode_Cons_keys by blast
  have "object_keys first \<noteq> []"
    using assms(1) arr table_mode_Cons_keys by blast
  then obtain key keys where keys: "object_keys first = key # keys"
    by (cases "object_keys first") simp_all
  have "\<And>row. row \<in> set arr \<Longrightarrow>
      \<exists>y. map_sum id (\<lambda>str. length (stripColors str)) (formatPrimitive cfg (get_prop row key)) = Inr y"
  proof -
    fix row assume "row \<in> set arr"
    then have "renderable eng (get_prop row key)"
      using assms(2) by (simp add: list_all_iff get_prop_renderable)
    then obtain s where "formatPrimitive cfg (get_prop row key) = Inr s"
      using formatPrimitive_returns by blast
    then show "\<exists>y. map_sum id (\<lambda>str. length (stripColors str))
                     (formatPrimitive cfg (get_prop row key)) = Inr y"
      by simp
  qed
  then have "\<exists>lens. valuesLens cfg arr key = Inr lens"
    unfolding valuesLens_def by (rule collect_returns)
  then obtain lens where l: "valuesLens cfg arr key = Inr lens"
    by (rule exE)
  then have "length lens = length arr"
    unfolding valuesLens_def by (simp add: collect_length)
  then have "column_width eng cfg arr key = Inl RangeError"
    using l assms(3) by (simp add: column_width_def and_then_def math_max_def)
  then have "widths eng cfg arr (key # keys) = Inl RangeError"
    by (simp add: widths_def)
  then have "printTable eng cfg arr n = Inl RangeError"
    unfolding arr by (simp add: printTable_def keys and_then_def)
  then show ?thesis
    using assms(1) unfolding arr
    by (simp add: print.simps [of _ _ "JArr (first # rest)"] printArray.simps)
qed

text \<open>
  Claim C9 at an input where the code departs from it. A table cell that is a record
  with an own key \<open>toString\<close> reaches \<open>String(value)\<close>, which raises \<open>TypeError\<close>:
  \<open>print\<close> does not return a text, whatever the depth budget is.
\<close>

theorem print_throws:
  "print sample_engine default_config
     (JArr [JObj [(lit ''a'', JObj [(lit ''toString'', JStr (lit ''x''))])]]) 0
     = Inl TypeError
   \<and> print_d 4 sample_engine default_config
     (JArr [JObj [(lit ''a'', JObj [(lit ''toString'', JStr (lit ''x''))])]]) 0
     = Inl TypeError"
proof -
  let ?cell = "JObj [(lit ''toString'', JStr (lit ''x''))]"
  let ?arr = "[JObj [(lit ''a'', ?cell)]]"
  have tm: "table_mode ?arr"
    by (simp add: table_mode_def)
  have "formatPrimitive default_config (get_prop (JObj [(lit ''a'', ?cell)]) (lit ''a''))
        = Inl TypeError"
    by simp
  then have "column_width sample_engine default_config ?arr (lit ''a'') = Inl TypeError"
    by (simp add: column_width_def valuesLens_def and_then_def)
  then have "widths sample_engine default_config ?arr [lit ''a''] = Inl TypeError"
    by (simp add: widths_def)
  then have t: "printTable sample_engine default_config ?arr 0 = Inl TypeError"
    by (simp add: printTable_def and_then_def)
  have p: "print sample_engine default_config (JArr ?arr) 0 = Inl TypeError"
    using tm t by (simp add: print.simps printArray.simps)
  have n: "nesting (JArr ?arr) < 4" by simp
  have "print_d 4 sample_engine default_config (JArr ?arr) 0 = Inl TypeError"
    using print_d_enough [OF n] p by simp
  then show ?thesis using p by simp
qed

section \<open>Table cells\<close>

text \<open>
  Claim C3 at an input where the code departs from it: the one-row table whose cell is
  the string \<open>a\<close>, line break, \<open>bcdef\<close>, with the default configuration. The line
  break at index 1 becomes the maximum, the end of the slice is negative, and the cell
  comes out with 9 characters in a column of width 8.
\<close>

theorem cell_wider_than_column:
  "table_mode [JObj [(lit ''a'', JStr (lit ''a'' @ [NL] @ lit ''bcdef''))]]
   \<and> widths sample_engine default_config
        [JObj [(lit ''a'', JStr (lit ''a'' @ [NL] @ lit ''bcdef''))]] [lit ''a'']
       = Inr [(lit ''a'', Number 8)]
   \<and> map_sum id stripColors
        (cell_display default_config (JStr (lit ''a'' @ [NL] @ lit ''bcdef'')) (Number 8))
       = Inr (lit ''a'' @ [NL] @ lit ''bcd....'')
   \<and> map_sum id (\<lambda>display. length (stripColors display))
        (cell_display default_config (JStr (lit ''a'' @ [NL] @ lit ''bcdef'')) (Number 8))
       = Inr 9"
proof -
  let ?s = "lit ''a'' @ [NL] @ lit ''bcdef''"
  let ?p = "lit ''a'' @ [NL] @ lit ''bcd...''"
  let ?q = "lit ''a'' @ [NL] @ lit ''bcd....''"
  have t1: "truncate False ?s (Some (- 1)) = ?p"
    by (simp add: eval_truncate)
  have f: "formatPrimitive default_config (JStr ?s) = Inr (YELLOW @ ?p @ RESET)"
    using t1 by (simp add: default_config_def)
  have s1: "stripColors (YELLOW @ ?p @ RESET) = ?p"
    by (simp add: eval_strip)
  have c1: "leading_color (YELLOW @ ?p @ RESET) = YELLOW"
    by (simp add: leading_color_def eval_strip)
  have t2: "truncate False ?p (Some 8) = ?q"
    by (simp add: eval_truncate)
  have s2: "stripColors ?q = ?q"
    by (simp add: eval_strip)
  have s3: "stripColors (YELLOW @ ?q @ RESET) = ?q"
    by (simp add: eval_strip)
  have l: "length ?p = 8" "length ?q = 9"
    by (simp_all add: lit_def)
  have tm: "table_mode [JObj [(lit ''a'', JStr ?s)]]"
    by (simp add: table_mode_def)
  have cw: "column_width sample_engine default_config [JObj [(lit ''a'', JStr ?s)]] (lit ''a'') = Inr 8"
    unfolding column_width_def valuesLens_def
    using f s1 l by (simp add: and_then_def math_max_def sample_engine_def lit_def)
  have nk: "lit ''a'' \<noteq> lit ''__proto__''"
    by (simp add: lit_def)
  have w: "widths sample_engine default_config [JObj [(lit ''a'', JStr ?s)]] [lit ''a'']
       = Inr [(lit ''a'', Number 8)]"
    unfolding widths_def using cw nk by (simp add: widths_read_def)
  have cd: "cell_display default_config (JStr ?s) (Number 8) = Inr (YELLOW @ ?q @ RESET)"
    unfolding cell_display_def f
    using s1 c1 t2 s2 l by (simp add: Let_def max_length_def pad_length_def padEnd_def default_config_def)
  show ?thesis
    using tm w cd s3 l by simp
qed

end
